theory Spec2Isabelle
  imports Main "HOL-Library.Word"
begin

section \<open>The obligation checker's configuration\<close>

text \<open>
  \<^verbatim>\<open>src/validator/obligation_checker.h\<close>: the enum \<^verbatim>\<open>AliasStrategy\<close> and the four
  protected configuration members of \<^verbatim>\<open>class ObligationChecker\<close>. The members are
  \<^verbatim>\<open>alias_strategy_\<close>, \<^verbatim>\<open>basic_block_ghosts_\<close>, \<^verbatim>\<open>nacl_\<close> and \<^verbatim>\<open>fixpoint_up_\<close>; the
  record fields drop the trailing underscore and carry the prefix \<open>oc_\<close>.
\<close>

datatype AliasStrategy = BASIC | FLAT | ARM | ARMS_RACE

record ObligationChecker =
  oc_alias_strategy :: AliasStrategy
  oc_basic_block_ghosts :: bool
  oc_nacl :: bool
  oc_fixpoint_up :: bool

definition set_alias_strategy :: "AliasStrategy \<Rightarrow> ObligationChecker \<Rightarrow> ObligationChecker" where
  "set_alias_strategy as this = this\<lparr>oc_alias_strategy := as\<rparr>"

definition get_alias_strategy :: "ObligationChecker \<Rightarrow> AliasStrategy" where
  "get_alias_strategy this = oc_alias_strategy this"

definition set_fixpoint_up :: "bool \<Rightarrow> ObligationChecker \<Rightarrow> ObligationChecker" where
  "set_fixpoint_up b this = this\<lparr>oc_fixpoint_up := b\<rparr>"

definition set_nacl :: "bool \<Rightarrow> ObligationChecker \<Rightarrow> ObligationChecker" where
  "set_nacl b this = this\<lparr>oc_nacl := b\<rparr>"

definition set_basic_block_ghosts :: "bool \<Rightarrow> ObligationChecker \<Rightarrow> ObligationChecker" where
  "set_basic_block_ghosts b this = this\<lparr>oc_basic_block_ghosts := b\<rparr>"

text \<open>
  The default constructor has no member initialisers: it starts from an object whose four
  members hold indeterminate values (the argument \<open>raw\<close>) and calls the four setters in
  the order of the source.
\<close>

definition ObligationChecker_default :: "ObligationChecker \<Rightarrow> ObligationChecker" where
  "ObligationChecker_default raw =
     set_fixpoint_up False
       (set_basic_block_ghosts True
         (set_nacl False
           (set_alias_strategy FLAT raw)))"

text \<open>
  The copy constructor, likewise from an indeterminate object \<open>raw\<close>, assigns the four
  members from \<open>oc\<close> in the order of the source.
\<close>

definition ObligationChecker_copy :: "ObligationChecker \<Rightarrow> ObligationChecker \<Rightarrow> ObligationChecker" where
  "ObligationChecker_copy raw oc =
     (let this1 = raw\<lparr>oc_basic_block_ghosts := oc_basic_block_ghosts oc\<rparr>;
          this2 = this1\<lparr>oc_nacl := oc_nacl oc\<rparr>;
          this3 = this2\<lparr>oc_fixpoint_up := oc_fixpoint_up oc\<rparr>;
          this4 = this3\<lparr>oc_alias_strategy := oc_alias_strategy oc\<rparr>
      in this4)"

section \<open>Symbolic values\<close>

text \<open>
  The classes \<^verbatim>\<open>SymBitVector\<close>, \<^verbatim>\<open>SymBool\<close> and \<^verbatim>\<open>SymArray\<close> are declared in headers
  that \<^verbatim>\<open>arm.h\<close> includes. The memory model uses four of their operations: the
  temporaries \<^verbatim>\<open>SymBitVector::tmp_var\<close> and \<^verbatim>\<open>SymArray::tmp_var\<close>, the comparison
  \<^verbatim>\<open>==\<close> on bit vectors and on arrays, and the constant \<^verbatim>\<open>SymBool::_false()\<close>. A bit
  vector is either such a temporary or some other expression, whose form the memory model
  never inspects (the type parameter \<open>'e\<close>).
\<close>

datatype 'e SymBitVector =
    TMP_BV "16 word" nat
  | BV_expr 'e

datatype SymArray = TMP_ARRAY "16 word" "16 word" nat

datatype 'e SymBool =
    SymBool_false
  | BV_eq "'e SymBitVector" "'e SymBitVector"
  | ARRAY_eq SymArray SymArray

text \<open>
  Modelled from the spec: \<^verbatim>\<open>SymBitVector::tmp_var(size)\<close> and
  \<^verbatim>\<open>SymArray::tmp_var(key_size, value_size)\<close> are defined outside the two headers; the spec calls
  their result "a fresh placeholder variable". Each draws the next number of a counter of
  its class, kept here as an explicit argument and result, so two calls never return the
  same variable.
\<close>

definition SymBitVector_tmp_var :: "16 word \<Rightarrow> nat \<Rightarrow> 'e SymBitVector \<times> nat" where
  "SymBitVector_tmp_var sz tmp_counter = (TMP_BV sz tmp_counter, Suc tmp_counter)"

definition SymArray_tmp_var :: "16 word \<Rightarrow> 16 word \<Rightarrow> nat \<Rightarrow> SymArray \<times> nat" where
  "SymArray_tmp_var key_size value_size tmp_counter =
     (TMP_ARRAY key_size value_size tmp_counter, Suc tmp_counter)"

section \<open>The ARM memory model\<close>

text \<open>
  \<^verbatim>\<open>struct MemAccess\<close> of \<^verbatim>\<open>class ArmMemory\<close>, every member of the source with the prefix
  \<open>acc_\<close>. \<^verbatim>\<open>read\<close> and \<^verbatim>\<open>write\<close> declare \<^verbatim>\<open>MemAccess m;\<close> and assign four members;
  \<^verbatim>\<open>cell\<close>, \<^verbatim>\<open>cell_offset\<close>, \<^verbatim>\<open>is_other\<close> and \<^verbatim>\<open>index\<close> stay unassigned, which is
  \<open>None\<close> here. The struct has no member for a line number.
\<close>

record 'e MemAccess =
  acc_address :: "'e SymBitVector"
  acc_value :: "'e SymBitVector"
  acc_size :: "64 word"
  acc_write :: bool
  acc_cell :: "64 word option"
  acc_cell_offset :: "64 word option"
  acc_is_other :: "bool option"
  acc_index :: "64 word option"

text \<open>
  The members of \<^verbatim>\<open>class ArmMemory\<close> that its inline member functions read or write
  (\<^verbatim>\<open>constraints_\<close>, \<^verbatim>\<open>heap_\<close> and so on; a name cannot end in an underscore here, so
  the fields carry the prefix \<open>am_\<close> instead).
  \<^verbatim>\<open>access_list_\<close> is a \<^verbatim>\<open>std::map\<close> from the address of a bit-vector node to a
  \<^verbatim>\<open>uint64_t\<close>; the key is the node itself here. The members used only by
  \<^verbatim>\<open>generate_constraints\<close> and \<^verbatim>\<open>recurse_cell_assignment\<close>, which the header declares
  and does not define (\<^verbatim>\<open>cells_\<close>, \<^verbatim>\<open>all_accesses_\<close>, \<^verbatim>\<open>access_offsets_\<close>), and the
  solver reference are left out.
\<close>

record 'e ArmMemory =
  am_constraints :: "'e SymBool list"
  am_heap :: SymArray
  am_start_variable :: SymArray
  am_final_heap :: SymArray
  am_finalize :: bool
  am_access_list :: "'e SymBitVector \<rightharpoonup> 64 word"
  am_accesses :: "'e MemAccess list"

text \<open>
  The constructor: two array temporaries, the first one both \<^verbatim>\<open>heap_\<close> and
  \<^verbatim>\<open>start_variable_\<close>. The containers start empty. The argument and the second result
  are the counter of \<^verbatim>\<open>SymArray::tmp_var\<close>.
\<close>

definition ArmMemory_new :: "nat \<Rightarrow> 'e ArmMemory \<times> nat" where
  "ArmMemory_new array_counter =
     (let (heap, c1) = SymArray_tmp_var 64 8 array_counter;
          (final_heap, c2) = SymArray_tmp_var 64 8 c1
      in (\<lparr>am_constraints = [], am_heap = heap, am_start_variable = heap,
            am_final_heap = final_heap, am_finalize = False,
            am_access_list = Map.empty, am_accesses = []\<rparr>, c2))"

definition get_end_variable :: "'e ArmMemory \<Rightarrow> SymArray" where
  "get_end_variable this = am_final_heap this"

definition get_start_variable :: "'e ArmMemory \<Rightarrow> SymArray" where
  "get_start_variable this = am_start_variable this"

definition get_variable :: "'e ArmMemory \<Rightarrow> SymArray" where
  "get_variable this =
     (if am_finalize this then get_end_variable this else get_start_variable this)"

definition finalize_heap :: "'e ArmMemory \<Rightarrow> 'e ArmMemory" where
  "finalize_heap this = this\<lparr>am_finalize := True\<rparr>"

text \<open>
  \<^verbatim>\<open>ArmMemory::write\<close> and \<^verbatim>\<open>ArmMemory::read\<close> (\<open>write\<close> is a keyword of
  Isabelle, so both carry the class name) take, besides the arguments of the source, the counter of
  \<^verbatim>\<open>SymBitVector::tmp_var\<close> and the object, and return both updated. \<^verbatim>\<open>size\<close> is a
  \<^verbatim>\<open>uint16_t\<close>, widened to \<^verbatim>\<open>uint64_t\<close> in the access list and to \<^verbatim>\<open>size_t\<close> in the
  record. The body never mentions \<^verbatim>\<open>line_no\<close>.
\<close>

definition ArmMemory_write ::
  "'e SymBitVector \<Rightarrow> 'e SymBitVector \<Rightarrow> 16 word \<Rightarrow> 64 word \<Rightarrow> nat \<times> 'e ArmMemory
     \<Rightarrow> 'e SymBool \<times> nat \<times> 'e ArmMemory" where
  "ArmMemory_write address val sz line_no st =
     (let (tmp_counter, this) = st;
          (access_var, c1) = SymBitVector_tmp_var 64 tmp_counter;
          this1 = this\<lparr>am_constraints := am_constraints this @ [BV_eq access_var address]\<rparr>;
          this2 = this1\<lparr>am_access_list := (am_access_list this1)(access_var \<mapsto> ucast sz)\<rparr>;
          m = \<lparr>acc_address = address, acc_value = val, acc_size = ucast sz,
               acc_write = True, acc_cell = None, acc_cell_offset = None,
               acc_is_other = None, acc_index = None\<rparr>;
          this3 = this2\<lparr>am_accesses := am_accesses this2 @ [m]\<rparr>
      in (SymBool_false, c1, this3))"

definition ArmMemory_read ::
  "'e SymBitVector \<Rightarrow> 16 word \<Rightarrow> 64 word \<Rightarrow> nat \<times> 'e ArmMemory
     \<Rightarrow> ('e SymBitVector \<times> 'e SymBool) \<times> nat \<times> 'e ArmMemory" where
  "ArmMemory_read address sz line_no st =
     (let (tmp_counter, this) = st;
          (access_var, c1) = SymBitVector_tmp_var 64 tmp_counter;
          this1 = this\<lparr>am_constraints := am_constraints this @ [BV_eq access_var address]\<rparr>;
          this2 = this1\<lparr>am_access_list := (am_access_list this1)(access_var \<mapsto> ucast sz)\<rparr>;
          (v, c2) = SymBitVector_tmp_var sz c1;
          m = \<lparr>acc_address = address, acc_value = v, acc_size = ucast sz,
               acc_write = False, acc_cell = None, acc_cell_offset = None,
               acc_is_other = None, acc_index = None\<rparr>;
          this3 = this2\<lparr>am_accesses := am_accesses this2 @ [m]\<rparr>
      in ((acc_value m, SymBool_false), c2, this3))"

definition equality_constraint :: "'e ArmMemory \<Rightarrow> 'e ArmMemory \<Rightarrow> 'e SymBool" where
  "equality_constraint this other = ARRAY_eq (get_variable this) (get_variable other)"

definition get_constraints :: "'e ArmMemory \<Rightarrow> 'e SymBool list" where
  "get_constraints this = am_constraints this"

definition get_access_list :: "'e ArmMemory \<Rightarrow> ('e SymBitVector \<rightharpoonup> 64 word)" where
  "get_access_list this = am_access_list this"

text \<open>
  A client of the memory model is a sequence of calls on one object. \<open>perform_all\<close> runs
  them in order on the pair of the bit-vector counter and the object.
\<close>

datatype 'e mem_call =
    Call_write "'e SymBitVector" "'e SymBitVector" "16 word" "64 word"
  | Call_read "'e SymBitVector" "16 word" "64 word"
  | Call_finalize_heap

fun is_access :: "'e mem_call \<Rightarrow> bool" where
  "is_access (Call_write address val sz line_no) = True"
| "is_access (Call_read address sz line_no) = True"
| "is_access Call_finalize_heap = False"

fun perform :: "'e mem_call \<Rightarrow> nat \<times> 'e ArmMemory \<Rightarrow> nat \<times> 'e ArmMemory" where
  "perform (Call_write address val sz line_no) st = snd (ArmMemory_write address val sz line_no st)"
| "perform (Call_read address sz line_no) st = snd (ArmMemory_read address sz line_no st)"
| "perform Call_finalize_heap st = (fst st, finalize_heap (snd st))"

fun perform_all :: "'e mem_call list \<Rightarrow> nat \<times> 'e ArmMemory \<Rightarrow> nat \<times> 'e ArmMemory" where
  "perform_all [] st = st"
| "perform_all (c # cs) st = perform_all cs (perform c st)"

text \<open>
  The invariant behind the access list: every key is a 64-bit temporary numbered below the
  counter, the map has one key for each recorded access, and the \<open>i\<close>-th constraint ties
  the \<open>i\<close>-th access's placeholder to its address.
\<close>

definition access_inv :: "nat \<times> 'e ArmMemory \<Rightarrow> bool" where
  "access_inv st =
     (let c = fst st; this = snd st in
        finite (dom (am_access_list this)) \<and>
        card (dom (am_access_list this)) = length (am_accesses this) \<and>
        length (am_constraints this) = length (am_accesses this) \<and>
        (\<forall>k \<in> dom (am_access_list this). \<exists>n < c. k = TMP_BV 64 n) \<and>
        (\<forall>i < length (am_accesses this). \<exists>n < c.
           am_constraints this ! i = BV_eq (TMP_BV 64 n) (acc_address (am_accesses this ! i)) \<and>
           am_access_list this (TMP_BV 64 n) = Some (acc_size (am_accesses this ! i))))"

text \<open>
  The keys of the access list: they are the left-hand sides of the constraints, and each
  is a 64-bit temporary drawn since the counter stood at \<open>c0\<close>.
\<close>

definition keys_inv :: "nat \<Rightarrow> nat \<times> 'e ArmMemory \<Rightarrow> bool" where
  "keys_inv c0 st =
     (c0 \<le> fst st \<and>
      dom (am_access_list (snd st)) = {k. \<exists>a. BV_eq k a \<in> set (am_constraints (snd st))} \<and>
      (\<forall>k \<in> dom (am_access_list (snd st)). \<exists>n. c0 \<le> n \<and> n < fst st \<and> k = TMP_BV 64 n))"

section \<open>The result of a check and the synchronous adapter\<close>

text \<open>
  \<^verbatim>\<open>struct ObligationChecker::Result\<close>. \<^verbatim>\<open>CpuState\<close> is declared elsewhere and is the
  type parameter \<open>'cpu\<close>. The constructor \<^verbatim>\<open>Result() { }\<close> assigns nothing.
\<close>

record 'cpu Result =
  verified :: bool
  has_ceg :: bool
  has_error :: bool
  error_message :: string
  target_ceg :: 'cpu
  rewrite_ceg :: 'cpu
  target_final_ceg :: 'cpu
  rewrite_final_ceg :: 'cpu

text \<open>
  \<^verbatim>\<open>check\<close> is pure virtual. Its comment gives the three ways an implementation may
  behave: (1) block, call the callback in the same thread, and return; (2) start an
  asynchronous job, which later invokes the callback, and return; (3) block, then start
  such a job and return.
\<close>

datatype check_mode = Blocking | Asynchronous | Blocking_then_asynchronous

datatype thread = Caller | Job

text \<open>
  \<^verbatim>\<open>std::atomic<bool>\<close> with the two memory orders \<^verbatim>\<open>check_wait\<close> uses (and the
  relaxed one). Besides its value the flag remembers whether the store that wrote the
  value was a release store: an acquire load that reads the value of a release store
  synchronises with it, so everything the storing thread wrote before the store is
  visible to the loading thread afterwards. The second result of \<open>atomic_load\<close> says
  whether the load synchronised.
\<close>

datatype memory_order = memory_order_relaxed | memory_order_acquire | memory_order_release

record atomic_bool =
  atomic_value :: bool
  atomic_released :: bool




text \<open>
  The state of one call of \<^verbatim>\<open>check_wait\<close>: its two locals \<^verbatim>\<open>await_complete\<close> and
  \<^verbatim>\<open>await_result\<close>, which the callback captures by reference; which thread last
  assigned \<^verbatim>\<open>await_result\<close>; how far the callback has run (0 not entered, 1 after
  \<^verbatim>\<open>await_result = result\<close>, 2 after the store to the flag); whether the asynchronous
  job exists; where the calling thread is; and whether the calling thread has
  synchronised with the callback's thread.
\<close>

datatype 'r caller_pc = In_check | Polling | Loop_exited | Returned 'r | Data_race

record 'r wait_state =
  await_complete :: atomic_bool
  await_result :: 'r
  result_writer :: "thread option"
  callback_pc :: nat
  job_started :: bool
  caller_blocked :: bool
  caller_sees :: bool
  caller :: "'r caller_pc"








text \<open>
  What holds of every state \<^verbatim>\<open>check_wait\<close> reaches: a set flag was stored by the
  callback after the assignment, with release order; a thread that left the loop saw the
  flag set and synchronised; only the job writes from another thread.
\<close>

definition wait_inv :: "check_mode \<Rightarrow> 'r \<Rightarrow> 'r wait_state \<Rightarrow> bool" where
  "wait_inv mode result s =
     (callback_pc s \<le> 2 \<and>
      (atomic_value (await_complete s) = (callback_pc s = 2)) \<and>
      (atomic_value (await_complete s) = atomic_released (await_complete s)) \<and>
      (0 < callback_pc s) = (await_result s = result \<and> result_writer s \<noteq> None) \<and>
      (callback_pc s = 0) = (result_writer s = None) \<and>
      (result_writer s = Some Job) = (0 < callback_pc s \<and> mode \<noteq> Blocking) \<and>
      (job_started s = (mode \<noteq> Blocking \<and> caller s \<noteq> In_check)) \<and>
      (caller s = In_check \<or> callback_pc s = 2 \<or> mode \<noteq> Blocking) \<and>
      (caller s \<noteq> In_check \<or> callback_pc s = 0 \<or> mode = Blocking) \<and>
      (case caller s of
         In_check \<Rightarrow> \<not> caller_sees s
       | Polling \<Rightarrow> \<not> caller_sees s
       | Loop_exited \<Rightarrow> callback_pc s = 2 \<and> caller_sees s
       | Returned v \<Rightarrow> callback_pc s = 2 \<and> v = result
       | Data_race \<Rightarrow> False))"



section \<open>The contract of check\<close>

text \<open>
  The events of one check: the calling thread blocks in \<^verbatim>\<open>check\<close>, starts the
  asynchronous job, or returns from \<^verbatim>\<open>check\<close>; the outcome of the check is determined;
  the callback is invoked with an outcome.
\<close>

datatype 'o check_event = Blocks | Starts_job | Determines 'o | Invokes_callback 'o | Returns

text \<open>
  Modelled from the spec: \<^verbatim>\<open>check\<close> is pure virtual, and its implementations are
  outside the two headers. The spec (4.1) and the comment of the declaration allow three
  behaviours: "(1) execute fully inline and invoke the callback before returning, (2)
  start background work and return immediately, invoking the callback later from any
  thread, or (3) a hybrid", which the comment gives as "block, then start an asynchronous
  job (which will call the callback) and return". \<open>check_calling_thread\<close> is what the
  calling thread does in program order and \<open>check_job\<close> what the job does. In the hybrid
  the outcome is determined either while blocking (\<open>early\<close>) or by the job.
\<close>

definition check_calling_thread :: "check_mode \<Rightarrow> bool \<Rightarrow> 'o \<Rightarrow> 'o check_event list" where
  "check_calling_thread mode early outcome =
     (case mode of
        Blocking \<Rightarrow> [Blocks, Determines outcome, Invokes_callback outcome, Returns]
      | Asynchronous \<Rightarrow> [Starts_job, Returns]
      | Blocking_then_asynchronous \<Rightarrow>
          (if early then [Blocks, Determines outcome, Starts_job, Returns]
           else [Blocks, Starts_job, Returns]))"

definition check_job :: "check_mode \<Rightarrow> bool \<Rightarrow> 'o \<Rightarrow> 'o check_event list" where
  "check_job mode early outcome =
     (case mode of
        Blocking \<Rightarrow> []
      | Asynchronous \<Rightarrow> [Determines outcome, Invokes_callback outcome]
      | Blocking_then_asynchronous \<Rightarrow>
          (if early then [Invokes_callback outcome]
           else [Determines outcome, Invokes_callback outcome]))"

text \<open>
  The events of both threads in the order a schedule runs them. The job takes no step
  before the calling thread has started it, and a thread with nothing left to do takes
  none.
\<close>

fun interleave ::
  "thread list \<Rightarrow> bool \<Rightarrow> 'o check_event list \<Rightarrow> 'o check_event list \<Rightarrow> 'o check_event list" where
  "interleave [] started cs js = []"
| "interleave (Caller # sched) started [] js = interleave sched started [] js"
| "interleave (Caller # sched) started (c # cs) js =
     c # interleave sched (started \<or> c = Starts_job) cs js"
| "interleave (Job # sched) started cs [] = interleave sched started cs []"
| "interleave (Job # sched) started cs (j # js) =
     (if started then j # interleave sched started cs js
      else interleave sched started cs (j # js))"

definition check_trace :: "check_mode \<Rightarrow> bool \<Rightarrow> 'o \<Rightarrow> thread list \<Rightarrow> 'o check_event list" where
  "check_trace mode early outcome sched =
     interleave sched False (check_calling_thread mode early outcome)
       (check_job mode early outcome)"

fun is_callback :: "'o check_event \<Rightarrow> bool" where
  "is_callback (Invokes_callback r) = True"
| "is_callback e = False"

text \<open>
  \<open>callbacks_follow d outcome es\<close>: in \<open>es\<close> every callback is invoked with \<open>outcome\<close>,
  after \<open>outcome\<close> was determined (\<open>d\<close>: it was determined before \<open>es\<close>).
  \<open>determined_at_start\<close>: whether the outcome is determined when the calling thread
  starts the job.
\<close>

fun callbacks_follow :: "bool \<Rightarrow> 'o \<Rightarrow> 'o check_event list \<Rightarrow> bool" where
  "callbacks_follow d outcome [] = True"
| "callbacks_follow d outcome (Determines x # es) = callbacks_follow (d \<or> x = outcome) outcome es"
| "callbacks_follow d outcome (Invokes_callback r # es) =
     (d \<and> r = outcome \<and> callbacks_follow d outcome es)"
| "callbacks_follow d outcome (e # es) = callbacks_follow d outcome es"

fun determined_at_start :: "bool \<Rightarrow> 'o \<Rightarrow> 'o check_event list \<Rightarrow> bool" where
  "determined_at_start d outcome [] = d"
| "determined_at_start d outcome (Starts_job # es) = d"
| "determined_at_start d outcome (Determines x # es) =
     determined_at_start (d \<or> x = outcome) outcome es"
| "determined_at_start d outcome (e # es) = determined_at_start d outcome es"

text \<open>
  What a schedule leaves undone: whether the job has been started, and the events each
  thread has not reached yet.
\<close>

fun remaining ::
  "thread list \<Rightarrow> bool \<Rightarrow> 'o check_event list \<Rightarrow> 'o check_event list
     \<Rightarrow> bool \<times> 'o check_event list \<times> 'o check_event list" where
  "remaining [] started cs js = (started, cs, js)"
| "remaining (Caller # sched) started [] js = remaining sched started [] js"
| "remaining (Caller # sched) started (c # cs) js =
     remaining sched (started \<or> c = Starts_job) cs js"
| "remaining (Job # sched) started cs [] = remaining sched started cs []"
| "remaining (Job # sched) started cs (j # js) =
     (if started then remaining sched started cs js
      else remaining sched started cs (j # js))"

section \<open>Properties of the configuration\<close>

text \<open>
  Claim C10. A default-constructed \<^verbatim>\<open>ObligationChecker\<close> has alias strategy \<^verbatim>\<open>FLAT\<close>,
  NaCl mode off, per-basic-block ghost variables on and fixpoint-up off, whatever its
  members held before the constructor body ran. The copy constructor copies the four
  configuration members, which are all the members there are, so the copy equals the
  original.
\<close>
theorem ObligationChecker_constructors:
  "ObligationChecker_default raw =
     \<lparr>oc_alias_strategy = FLAT, oc_basic_block_ghosts = True, oc_nacl = False,
      oc_fixpoint_up = False\<rparr> \<and>
   get_alias_strategy (ObligationChecker_default raw) = FLAT \<and>
   oc_alias_strategy (ObligationChecker_copy raw oc) = oc_alias_strategy oc \<and>
   oc_nacl (ObligationChecker_copy raw oc) = oc_nacl oc \<and>
   oc_basic_block_ghosts (ObligationChecker_copy raw oc) = oc_basic_block_ghosts oc \<and>
   oc_fixpoint_up (ObligationChecker_copy raw oc) = oc_fixpoint_up oc \<and>
   ObligationChecker_copy raw oc = oc"
  by (simp add: ObligationChecker_default_def ObligationChecker_copy_def get_alias_strategy_def
      set_fixpoint_up_def set_basic_block_ghosts_def set_nacl_def set_alias_strategy_def)

section \<open>Properties of the memory model\<close>

lemma write_eq:
  "ArmMemory_write address val sz line_no (c, this) =
     (SymBool_false, Suc c,
      this\<lparr>am_constraints := am_constraints this @ [BV_eq (TMP_BV 64 c) address],
           am_access_list := (am_access_list this)(TMP_BV 64 c \<mapsto> ucast sz),
           am_accesses := am_accesses this @
             [\<lparr>acc_address = address, acc_value = val, acc_size = ucast sz, acc_write = True,
               acc_cell = None, acc_cell_offset = None, acc_is_other = None, acc_index = None\<rparr>]\<rparr>)"
  by (simp add: ArmMemory_write_def SymBitVector_tmp_var_def)

lemma read_eq:
  "ArmMemory_read address sz line_no (c, this) =
     ((TMP_BV sz (Suc c), SymBool_false), Suc (Suc c),
      this\<lparr>am_constraints := am_constraints this @ [BV_eq (TMP_BV 64 c) address],
           am_access_list := (am_access_list this)(TMP_BV 64 c \<mapsto> ucast sz),
           am_accesses := am_accesses this @
             [\<lparr>acc_address = address, acc_value = TMP_BV sz (Suc c), acc_size = ucast sz, acc_write = False,
               acc_cell = None, acc_cell_offset = None, acc_is_other = None, acc_index = None\<rparr>]\<rparr>)"
  by (simp add: ArmMemory_read_def SymBitVector_tmp_var_def)

text \<open>The invariant of the access list holds of every object a client can build.\<close>

lemma access_inv_record:
  assumes inv: "access_inv (c, this)" and lt: "c < c'"
    and ma: "acc_address m = a" and ms: "acc_size m = s"
  shows "access_inv (c', this\<lparr>am_constraints := am_constraints this @ [BV_eq (TMP_BV 64 c) a],
           am_access_list := (am_access_list this)(TMP_BV 64 c \<mapsto> s),
           am_accesses := am_accesses this @ [m]\<rparr>)"
proof -
  let ?al = "am_access_list this"
  from inv have fin: "finite (dom ?al)"
    and crd: "card (dom ?al) = length (am_accesses this)"
    and len: "length (am_constraints this) = length (am_accesses this)"
    and keys: "\<And>k. k \<in> dom ?al \<Longrightarrow> \<exists>n < c. k = TMP_BV 64 n"
    and ent: "\<And>i. i < length (am_accesses this) \<Longrightarrow> \<exists>n < c.
           am_constraints this ! i = BV_eq (TMP_BV 64 n) (acc_address (am_accesses this ! i)) \<and>
           ?al (TMP_BV 64 n) = Some (acc_size (am_accesses this ! i))"
    by (auto simp: access_inv_def Let_def)
  have new: "TMP_BV 64 c \<notin> dom ?al"
  proof
    assume "TMP_BV 64 c \<in> dom ?al"
    then obtain n where "n < c" "TMP_BV 64 c = (TMP_BV 64 n :: 'a SymBitVector)"
      using keys by blast
    then show False by simp
  qed
  have c1: "card (dom (?al(TMP_BV 64 c \<mapsto> s))) = length (am_accesses this @ [m])"
    using fin new crd by simp
  have k1: "\<exists>n < c'. k = TMP_BV 64 n" if "k \<in> dom (?al(TMP_BV 64 c \<mapsto> s))" for k
  proof (cases "k = TMP_BV 64 c")
    case True
    then show ?thesis using lt by blast
  next
    case False
    then have "k \<in> dom ?al" using that by auto
    then obtain n where "n < c" "k = TMP_BV 64 n" using keys by blast
    then show ?thesis using lt by (intro exI [of _ n]) simp
  qed
  have e1: "\<exists>n < c'.
      (am_constraints this @ [BV_eq (TMP_BV 64 c) a]) ! i =
        BV_eq (TMP_BV 64 n) (acc_address ((am_accesses this @ [m]) ! i)) \<and>
      (?al(TMP_BV 64 c \<mapsto> s)) (TMP_BV 64 n) = Some (acc_size ((am_accesses this @ [m]) ! i))"
    if "i < length (am_accesses this @ [m])" for i
  proof (cases "i < length (am_accesses this)")
    case True
    then obtain n where n: "n < c"
      "am_constraints this ! i = BV_eq (TMP_BV 64 n) (acc_address (am_accesses this ! i))"
      "?al (TMP_BV 64 n) = Some (acc_size (am_accesses this ! i))"
      using ent by blast
    then show ?thesis using True lt len
      by (intro exI [of _ n]) (simp add: nth_append)
  next
    case False
    then have "i = length (am_accesses this)" using that by simp
    then show ?thesis using lt len ma ms
      by (intro exI [of _ c]) (simp add: nth_append)
  qed
  show ?thesis
    unfolding access_inv_def Let_def
    using fin c1 len k1 e1 by simp
qed

lemma access_inv_perform: "access_inv st \<Longrightarrow> access_inv (perform call st)"
proof (cases st)
  case (Pair c this)
  assume inv: "access_inv st"
  show ?thesis
  proof (cases call)
    case (Call_write a v sz l)
    show ?thesis using access_inv_record [of c this "Suc c" _ a "ucast sz"] inv Pair Call_write
      by (simp add: write_eq)
  next
    case (Call_read a sz l)
    show ?thesis using access_inv_record [of c this "Suc (Suc c)" _ a "ucast sz"] inv Pair Call_read
      by (simp add: read_eq)
  next
    case Call_finalize_heap
    then show ?thesis using inv Pair
      by (simp add: access_inv_def finalize_heap_def Let_def)
  qed
qed

lemma accesses_perform:
  "length (am_accesses (snd (perform call st))) =
     length (am_accesses (snd st)) + (if is_access call then 1 else 0)"
  by (cases st; cases call) (simp_all add: write_eq read_eq finalize_heap_def)

lemma perform_all_inv:
  "access_inv st \<Longrightarrow> access_inv (perform_all calls st) \<and>
     length (am_accesses (snd (perform_all calls st))) =
       length (am_accesses (snd st)) + length (filter is_access calls)"
proof (induction calls arbitrary: st)
  case Nil
  then show ?case by simp
next
  case (Cons call calls)
  from Cons.prems have "access_inv (perform call st)" by (rule access_inv_perform)
  from Cons.IH [OF this] show ?case
    by (simp add: accesses_perform)
qed

lemma access_inv_new: "access_inv (c, fst (ArmMemory_new k))"
  by (simp add: access_inv_def ArmMemory_new_def SymArray_tmp_var_def)

lemma accesses_new: "am_accesses (fst (ArmMemory_new k)) = []"
  by (simp add: ArmMemory_new_def SymArray_tmp_var_def)

lemma placeholder_fresh:
  "(TMP_BV w (fst (perform_all calls (c, fst (ArmMemory_new k))) + j) :: 'e SymBitVector)
     \<notin> dom (am_access_list (snd (perform_all calls (c, fst (ArmMemory_new k)))))"
proof
  let ?st = "perform_all calls (c, fst (ArmMemory_new k :: 'e ArmMemory \<times> nat))"
  assume key: "TMP_BV w (fst ?st + j) \<in> dom (am_access_list (snd ?st))"
  have "access_inv ?st"
    using perform_all_inv [OF access_inv_new] by blast
  then have "\<forall>k \<in> dom (am_access_list (snd ?st)). \<exists>n < fst ?st. k = TMP_BV 64 n"
    by (simp add: access_inv_def Let_def)
  with key obtain n where "n < fst ?st" "TMP_BV w (fst ?st + j) = (TMP_BV 64 n :: 'e SymBitVector)"
    by blast
  then show False by simp
qed

text \<open>
  Claim C2. For every address, value, size and line number, on every object and counter,
  \<^verbatim>\<open>write\<close> draws exactly one temporary (the 64-bit placeholder numbered by the counter,
  which advances by one), appends the one constraint equating the placeholder to the
  address, records the size under the placeholder in the access list, appends one access
  record tagged as a write that carries the address, the value and the size, changes
  nothing else, and returns the constant false as the fault condition. The placeholder is
  fresh: on an object built by the constructor and any sequence of calls, the placeholder
  that the next call draws is not yet a key of the access list.
\<close>
theorem write_appends_one_access:
  "ArmMemory_write address val sz line_no (c, this) =
     (SymBool_false, Suc c,
      this\<lparr>am_constraints := am_constraints this @ [BV_eq (TMP_BV 64 c) address],
           am_access_list := (am_access_list this)(TMP_BV 64 c \<mapsto> ucast sz),
           am_accesses := am_accesses this @
             [\<lparr>acc_address = address, acc_value = val, acc_size = ucast sz, acc_write = True,
               acc_cell = None, acc_cell_offset = None, acc_is_other = None,
               acc_index = None\<rparr>]\<rparr>) \<and>
   get_access_list (snd (snd (ArmMemory_write address val sz line_no (c, this)))) (TMP_BV 64 c)
     = Some (ucast sz) \<and>
   length (get_constraints (snd (snd (ArmMemory_write address val sz line_no (c, this)))))
     = Suc (length (get_constraints this)) \<and>
   length (am_accesses (snd (snd (ArmMemory_write address val sz line_no (c, this)))))
     = Suc (length (am_accesses this)) \<and>
   (TMP_BV 64 (fst (perform_all calls (c0, fst (ArmMemory_new k)))) :: 'e SymBitVector)
     \<notin> dom (get_access_list (snd (perform_all calls (c0, fst (ArmMemory_new k)))))"
  using placeholder_fresh [of 64 calls c0 k 0]
  by (simp add: write_eq get_access_list_def get_constraints_def)

text \<open>
  Claim C3. For every address, size and line number, \<^verbatim>\<open>read\<close> returns a temporary of
  width \<open>size\<close> as the value, together with the constant false as the fault condition.
  It appends exactly one access record, tagged as a read and carrying that value. The
  only constraint it adds equates the address placeholder to the address; the value is a
  different temporary from the placeholder, so the added constraint does not mention it,
  and on an object built by the constructor and any sequence of calls it is not a key of
  the access list either.
\<close>
theorem read_returns_fresh_value:
  "ArmMemory_read address sz line_no (c, this) =
     ((TMP_BV sz (Suc c), SymBool_false), Suc (Suc c),
      this\<lparr>am_constraints := am_constraints this @ [BV_eq (TMP_BV 64 c) address],
           am_access_list := (am_access_list this)(TMP_BV 64 c \<mapsto> ucast sz),
           am_accesses := am_accesses this @
             [\<lparr>acc_address = address, acc_value = TMP_BV sz (Suc c), acc_size = ucast sz,
               acc_write = False, acc_cell = None, acc_cell_offset = None,
               acc_is_other = None, acc_index = None\<rparr>]\<rparr>) \<and>
   get_constraints (snd (snd (ArmMemory_read address sz line_no (c, this))))
     = get_constraints this @ [BV_eq (TMP_BV 64 c) address] \<and>
   (TMP_BV sz (Suc c) :: 'e SymBitVector) \<noteq> TMP_BV 64 c \<and>
   length (am_accesses (snd (snd (ArmMemory_read address sz line_no (c, this)))))
     = Suc (length (am_accesses this)) \<and>
   (TMP_BV sz (Suc (fst (perform_all calls (c0, fst (ArmMemory_new k))))) :: 'e SymBitVector)
     \<notin> dom (get_access_list (snd (perform_all calls (c0, fst (ArmMemory_new k)))))"
  using placeholder_fresh [of sz calls c0 k 1]
  by (simp add: read_eq get_constraints_def get_access_list_def)

lemma perform_fields:
  "am_start_variable (snd (perform call st)) = am_start_variable (snd st) \<and>
   am_final_heap (snd (perform call st)) = am_final_heap (snd st) \<and>
   am_finalize (snd (perform call st)) = (am_finalize (snd st) \<or> call = Call_finalize_heap)"
  by (cases st; cases call) (simp_all add: write_eq read_eq finalize_heap_def)

lemma perform_all_fields:
  "am_start_variable (snd (perform_all calls st)) = am_start_variable (snd st) \<and>
   am_final_heap (snd (perform_all calls st)) = am_final_heap (snd st) \<and>
   am_finalize (snd (perform_all calls st)) = (am_finalize (snd st) \<or> Call_finalize_heap \<in> set calls)"
proof (induction calls arbitrary: st)
  case Nil
  then show ?case by simp
next
  case (Cons call calls)
  show ?case using Cons [of "perform call st"] perform_fields [of call st] by auto
qed

text \<open>
  Claim C4. On an object made by the constructor and used through any sequence of calls,
  \<^verbatim>\<open>get_variable\<close> returns the start-of-execution heap variable (the constructor's
  first array temporary) as long as \<^verbatim>\<open>finalize_heap\<close> is not among the calls, and the
  end-of-execution heap variable (the second one) once it is. \<^verbatim>\<open>equality_constraint\<close>
  equates the variables the two objects currently select; between two finalized objects
  it equates the two end-of-execution heaps.
\<close>
theorem get_variable_selects_timeline:
  "get_variable (snd (perform_all calls (c, fst (ArmMemory_new k)))) =
     (if Call_finalize_heap \<in> set calls then TMP_ARRAY 64 8 (Suc k) else TMP_ARRAY 64 8 k) \<and>
   get_start_variable (snd (perform_all calls (c, fst (ArmMemory_new k)))) = TMP_ARRAY 64 8 k \<and>
   get_end_variable (snd (perform_all calls (c, fst (ArmMemory_new k)))) = TMP_ARRAY 64 8 (Suc k) \<and>
   get_variable (finalize_heap this) = get_end_variable this \<and>
   equality_constraint this other = ARRAY_eq (get_variable this) (get_variable other) \<and>
   equality_constraint (finalize_heap this) (finalize_heap other) =
     ARRAY_eq (get_end_variable this) (get_end_variable other)"
proof -
  have new: "am_start_variable (fst (ArmMemory_new k :: 'a ArmMemory \<times> nat)) = TMP_ARRAY 64 8 k"
    "am_final_heap (fst (ArmMemory_new k :: 'a ArmMemory \<times> nat)) = TMP_ARRAY 64 8 (Suc k)"
    "\<not> am_finalize (fst (ArmMemory_new k :: 'a ArmMemory \<times> nat))"
    by (simp_all add: ArmMemory_new_def SymArray_tmp_var_def)
  show ?thesis
    using perform_all_fields [of calls "(c, fst (ArmMemory_new k :: 'a ArmMemory \<times> nat))"] new
    by (simp add: get_variable_def get_start_variable_def get_end_variable_def
        equality_constraint_def finalize_heap_def)
qed

subsection \<open>The access list\<close>

text \<open>
  Claim C8 says that the access list has one entry per distinct symbolic address, so that
  two accesses at the same address share an entry. The key of an entry is the placeholder
  \<^verbatim>\<open>access_var\<close> that each call draws anew, not the address: two writes at the address
  \<open>rdi\<close> leave two entries, and none under \<open>rdi\<close>.
\<close>
theorem access_list_not_keyed_by_address:
  "card (dom (get_access_list (snd (perform_all
      [Call_write (BV_expr ''rdi'') (BV_expr ''rax'') 64 1,
       Call_write (BV_expr ''rdi'') (BV_expr ''rbx'') 64 2]
      (0, fst (ArmMemory_new 0)))))) = 2 \<and>
   get_access_list (snd (perform_all
      [Call_write (BV_expr ''rdi'') (BV_expr ''rax'') 64 1,
       Call_write (BV_expr ''rdi'') (BV_expr ''rbx'') 64 2]
      (0, fst (ArmMemory_new 0)))) (BV_expr ''rdi'') = None"
  by (simp add: write_eq get_access_list_def ArmMemory_new_def SymArray_tmp_var_def)

lemma access_list_entries:
  assumes "perform_all calls (c, fst (ArmMemory_new k)) = (c', this)"
  shows "card (dom (get_access_list this)) = length (filter is_access calls) \<and>
     length (am_accesses this) = length (filter is_access calls) \<and>
     (\<forall>i < length (am_accesses this). \<exists>n.
        get_constraints this ! i = BV_eq (TMP_BV 64 n) (acc_address (am_accesses this ! i)) \<and>
        get_access_list this (TMP_BV 64 n) = Some (acc_size (am_accesses this ! i)))"
proof -
  have "access_inv (perform_all calls (c, fst (ArmMemory_new k))) \<and>
    length (am_accesses (snd (perform_all calls (c, fst (ArmMemory_new k))))) =
    length (am_accesses (snd (c, fst (ArmMemory_new k :: 'a ArmMemory \<times> nat)))) + length (filter is_access calls)"
    by (rule perform_all_inv [OF access_inv_new])
  then have inv: "access_inv (c', this)"
    and len: "length (am_accesses this) = length (filter is_access calls)"
    unfolding assms by (simp_all add: accesses_new)
  from inv have crd: "card (dom (am_access_list this)) = length (am_accesses this)"
    and ent: "\<And>i. i < length (am_accesses this) \<Longrightarrow> \<exists>n < c'.
           am_constraints this ! i = BV_eq (TMP_BV 64 n) (acc_address (am_accesses this ! i)) \<and>
           am_access_list this (TMP_BV 64 n) = Some (acc_size (am_accesses this ! i))"
    by (auto simp: access_inv_def Let_def)
  have "\<exists>n. get_constraints this ! i = BV_eq (TMP_BV 64 n) (acc_address (am_accesses this ! i)) \<and>
        get_access_list this (TMP_BV 64 n) = Some (acc_size (am_accesses this ! i))"
    if "i < length (am_accesses this)" for i
    using ent [OF that] unfolding get_access_list_def get_constraints_def by blast
  then show ?thesis using crd len
    unfolding get_access_list_def by simp
qed

lemma keys_inv_record:
  assumes inv: "keys_inv c0 (c, this)" and lt: "c < c'"
  shows "keys_inv c0 (c', this\<lparr>am_constraints := am_constraints this @ [BV_eq (TMP_BV 64 c) a],
           am_access_list := (am_access_list this)(TMP_BV 64 c \<mapsto> s),
           am_accesses := acc\<rparr>)"
proof -
  from inv have le: "c0 \<le> c"
    and d: "dom (am_access_list this) = {k. \<exists>a. BV_eq k a \<in> set (am_constraints this)}"
    and b: "\<And>k. k \<in> dom (am_access_list this) \<Longrightarrow> \<exists>n. c0 \<le> n \<and> n < c \<and> k = TMP_BV 64 n"
    by (auto simp: keys_inv_def)
  have d1: "dom ((am_access_list this)(TMP_BV 64 c \<mapsto> s)) =
      {k. \<exists>a'. BV_eq k a' \<in> set (am_constraints this @ [BV_eq (TMP_BV 64 c) a])}"
    using d by auto
  have b1: "\<exists>n. c0 \<le> n \<and> n < c' \<and> k = TMP_BV 64 n"
    if "k \<in> dom ((am_access_list this)(TMP_BV 64 c \<mapsto> s))" for k
  proof (cases "k = TMP_BV 64 c")
    case True
    then show ?thesis using le lt by blast
  next
    case False
    then have "k \<in> dom (am_access_list this)" using that by auto
    then obtain n where "c0 \<le> n" "n < c" "k = TMP_BV 64 n" using b by blast
    then show ?thesis using lt by (intro exI [of _ n]) simp
  qed
  show ?thesis unfolding keys_inv_def using le lt d1 b1 by simp
qed

lemma keys_inv_perform: "keys_inv c0 st \<Longrightarrow> keys_inv c0 (perform call st)"
proof (cases st)
  case (Pair c this)
  assume inv: "keys_inv c0 st"
  show ?thesis
  proof (cases call)
    case (Call_write a v sz l)
    show ?thesis using keys_inv_record [of c0 c this "Suc c"] inv
      unfolding Pair Call_write by (simp add: write_eq)
  next
    case (Call_read a sz l)
    show ?thesis using keys_inv_record [of c0 c this "Suc (Suc c)"] inv
      unfolding Pair Call_read by (simp add: read_eq)
  next
    case Call_finalize_heap
    then show ?thesis using inv Pair by (simp add: keys_inv_def finalize_heap_def)
  qed
qed

lemma keys_inv_perform_all: "keys_inv c0 st \<Longrightarrow> keys_inv c0 (perform_all calls st)"
  by (induction calls arbitrary: st) (simp_all add: keys_inv_perform)

lemma keys_inv_new: "keys_inv c (c, fst (ArmMemory_new k))"
  by (simp add: keys_inv_def ArmMemory_new_def SymArray_tmp_var_def)


text \<open>
  Claim C8, amended. After any sequence of calls on a newly constructed object, the access
  list has exactly one entry for each read or write performed. The entry of the \<open>i\<close>-th
  access is keyed by the placeholder that the \<open>i\<close>-th constraint equates to the access's
  address, and holds the access's size. The keys are exactly the placeholders on the
  left of the constraints, all of them 64-bit temporaries drawn by these calls; so an
  address is a key only if it is itself such a placeholder: no address that is not a
  temporary is a key, and no temporary that existed before the calls is one.
\<close>
theorem access_list_one_entry_per_call:
  assumes "perform_all calls (c, fst (ArmMemory_new k)) = (c', this)"
  shows "card (dom (get_access_list this)) = length (filter is_access calls) \<and>
     length (am_accesses this) = length (filter is_access calls) \<and>
     (\<forall>i < length (am_accesses this). \<exists>n.
        get_constraints this ! i = BV_eq (TMP_BV 64 n) (acc_address (am_accesses this ! i)) \<and>
        get_access_list this (TMP_BV 64 n) = Some (acc_size (am_accesses this ! i))) \<and>
     dom (get_access_list this) = {k. \<exists>a. BV_eq k a \<in> set (get_constraints this)} \<and>
     (\<forall>k \<in> dom (get_access_list this). \<exists>n. c \<le> n \<and> n < c' \<and> k = TMP_BV 64 n) \<and>
     (\<forall>e. get_access_list this (BV_expr e) = None) \<and>
     (\<forall>w n. n < c \<longrightarrow> get_access_list this (TMP_BV w n) = None)"
proof -
  have old: "card (dom (get_access_list this)) = length (filter is_access calls) \<and>
     length (am_accesses this) = length (filter is_access calls) \<and>
     (\<forall>i < length (am_accesses this). \<exists>n.
        get_constraints this ! i = BV_eq (TMP_BV 64 n) (acc_address (am_accesses this ! i)) \<and>
        get_access_list this (TMP_BV 64 n) = Some (acc_size (am_accesses this ! i)))"
    using access_list_entries [OF assms] .
  have "keys_inv c (perform_all calls (c, fst (ArmMemory_new k :: 'a ArmMemory \<times> nat)))"
    by (rule keys_inv_perform_all [OF keys_inv_new])
  then have k: "keys_inv c (c', this)" unfolding assms .
  then have d: "dom (get_access_list this) = {k. \<exists>a. BV_eq k a \<in> set (get_constraints this)}"
    and b: "\<forall>k \<in> dom (get_access_list this). \<exists>n. c \<le> n \<and> n < c' \<and> k = TMP_BV 64 n"
    by (simp_all add: keys_inv_def get_access_list_def get_constraints_def)
  have e: "get_access_list this (BV_expr e) = None" for e
  proof (rule ccontr)
    assume "get_access_list this (BV_expr e) \<noteq> None"
    then have "BV_expr e \<in> dom (get_access_list this)" by auto
    with b show False by auto
  qed
  have t: "get_access_list this (TMP_BV w n) = None" if "n < c" for w n
  proof (rule ccontr)
    assume "get_access_list this (TMP_BV w n) \<noteq> None"
    then have "TMP_BV w n \<in> dom (get_access_list this)" by auto
    with b obtain m where "c \<le> m" "TMP_BV w n = (TMP_BV 64 m :: 'a SymBitVector)" by blast
    with that show False by simp
  qed
  show ?thesis using old d b e t by blast
qed

theorem access_list_one_entry_per_call_witness:
  "card (dom (get_access_list (snd (perform_all
      [Call_write (BV_expr ''rdi'') (BV_expr ''rax'') 64 1, Call_read (BV_expr ''rdi'') 64 2]
      (0, fst (ArmMemory_new 0)))))) = 2"
proof -
  have "card (dom (get_access_list (snd (perform_all
      [Call_write (BV_expr ''rdi'') (BV_expr ''rax'') 64 1, Call_read (BV_expr ''rdi'') 64 2]
      (0, fst (ArmMemory_new 0)))))) = length (filter is_access
      [Call_write (BV_expr ''rdi'') (BV_expr ''rax'') 64 1, Call_read (BV_expr ''rdi'') 64 2])"
    by (rule access_list_one_entry_per_call [THEN conjunct1, OF surjective_pairing])
  then show ?thesis by simp
qed

text \<open>
  Claim C9 says that an access record carries the line number passed to \<^verbatim>\<open>read\<close> or
  \<^verbatim>\<open>write\<close>. Two writes that differ in the line number alone leave the same records.
\<close>
theorem line_no_lost:
  "am_accesses (snd (snd (ArmMemory_write (BV_expr ''rdi'') (BV_expr ''rax'') 64 1
      (0, fst (ArmMemory_new 0))))) =
   am_accesses (snd (snd (ArmMemory_write (BV_expr ''rdi'') (BV_expr ''rax'') 64 2
      (0, fst (ArmMemory_new 0))))) \<and> (1 :: 64 word) \<noteq> 2"
  by (simp add: write_eq)

text \<open>
  Claim C9, amended. \<^verbatim>\<open>read\<close> and \<^verbatim>\<open>write\<close> ignore the line number: calls that differ
  in it alone return the same result and leave the same object. The record appended
  carries the symbolic address, the symbolic value (for a read the new temporary), the
  size and the is-write flag; its cell-assignment members are not assigned when the access
  is recorded.
\<close>
theorem line_no_not_recorded:
  "ArmMemory_write address val sz line_no st = ArmMemory_write address val sz line_no' st \<and>
   ArmMemory_read address sz line_no st = ArmMemory_read address sz line_no' st \<and>
   last (am_accesses (snd (snd (ArmMemory_write address val sz line_no st)))) =
     \<lparr>acc_address = address, acc_value = val, acc_size = ucast sz, acc_write = True,
      acc_cell = None, acc_cell_offset = None, acc_is_other = None, acc_index = None\<rparr> \<and>
   last (am_accesses (snd (snd (ArmMemory_read address sz line_no st)))) =
     \<lparr>acc_address = address, acc_value = TMP_BV sz (Suc (fst st)), acc_size = ucast sz,
      acc_write = False, acc_cell = None, acc_cell_offset = None, acc_is_other = None,
      acc_index = None\<rparr>"
  by (cases st) (simp add: write_eq read_eq)

section \<open>Properties of the synchronous adapter\<close>









lemma returned_result: "wait_inv mode result s \<Longrightarrow> caller s = Returned v \<Longrightarrow> v = result"
  by (simp add: wait_inv_def)















section \<open>Properties of the contract of check\<close>

lemma interleave_count_le:
  "length (filter P (interleave sched started cs js)) \<le> length (filter P cs) + length (filter P js)"
  by (induction sched started cs js rule: interleave.induct) auto

lemma interleave_complete:
  "length (interleave sched started cs js) = length cs + length js \<Longrightarrow>
   length (filter P (interleave sched started cs js)) = length (filter P cs) + length (filter P js)"
proof (induction sched started cs js rule: interleave.induct)
  case (1 started cs js)
  then show ?case by simp
next
  case (2 sched started js)
  then show ?case by simp
next
  case (3 sched started c cs js)
  then show ?case by simp
next
  case (4 sched started cs)
  then show ?case by simp
next
  case (5 sched started cs j js)
  show ?case
  proof (cases started)
    case True
    then show ?thesis using 5 by simp
  next
    case False
    then show ?thesis using 5 by simp
  qed
qed

lemma callbacks_follow_mono:
  "callbacks_follow d outcome es \<Longrightarrow> callbacks_follow (d \<or> d') outcome es"
proof (induction d outcome es arbitrary: d' rule: callbacks_follow.induct)
  case (2 d outcome x es)
  from 2(2) have "callbacks_follow (d \<or> x = outcome) outcome es" by simp
  from 2(1) [OF this, of d'] show ?case by (simp add: disj_ac)
qed auto

lemma callbacks_follow_interleave:
  "callbacks_follow d outcome cs \<Longrightarrow>
   callbacks_follow (if started then d else determined_at_start d outcome cs) outcome js \<Longrightarrow>
   callbacks_follow d outcome (interleave sched started cs js)"
proof (induction sched started cs js arbitrary: d rule: interleave.induct)
  case (3 sched started c cs js d)
  show ?case
  proof (cases c)
    case (Determines x)
    have "callbacks_follow (if started then d \<or> x = outcome
            else determined_at_start (d \<or> x = outcome) outcome cs) outcome js"
      using 3(3) Determines callbacks_follow_mono [of d outcome js "x = outcome"]
      by (cases started) simp_all
    then show ?thesis using 3(1) [of "d \<or> x = outcome"] 3(2) Determines by simp
  next
    case Starts_job
    then show ?thesis using 3 by (cases started) simp_all
  next
    case Blocks
    then show ?thesis using 3 by (cases started) simp_all
  next
    case (Invokes_callback r)
    from 3(2) have d: "d" and r: "r = outcome"
      and cs: "callbacks_follow d outcome cs"
      unfolding Invokes_callback by auto
    from 3(3)
    have "callbacks_follow (if started then d else determined_at_start d outcome cs) outcome js"
      unfolding Invokes_callback by (cases started) simp_all
    with 3(1) [OF cs] d r show ?thesis
      unfolding Invokes_callback by simp
  next
    case Returns
    then show ?thesis using 3 by (cases started) simp_all
  qed
next
  case (5 sched started cs j js d)
  show ?case
  proof (cases started)
    case False
    then show ?thesis using 5 by simp
  next
    case True
    show ?thesis
    proof (cases j)
      case (Determines x)
      have "callbacks_follow (d \<or> x = outcome) outcome cs"
        using callbacks_follow_mono [OF 5(3)] .
      then show ?thesis using 5 True Determines by simp
    qed (use 5 True in auto)
  qed
qed auto

lemma callbacks_follow_split:
  "callbacks_follow d outcome (pre @ Invokes_callback r # post) \<Longrightarrow>
   r = outcome \<and> (d \<or> Determines outcome \<in> set pre)"
proof (induction pre arbitrary: d)
  case Nil
  then show ?case by simp
next
  case (Cons e pre)
  show ?case
  proof (cases e)
    case (Determines x)
    with Cons.prems have "callbacks_follow (d \<or> x = outcome) outcome (pre @ Invokes_callback r # post)"
      by simp
    from Cons.IH [OF this] Determines show ?thesis by auto
  next
    case (Invokes_callback r')
    with Cons.prems have "callbacks_follow d outcome (pre @ Invokes_callback r # post)"
      by auto
    from Cons.IH [OF this] show ?thesis by auto
  next
    case Blocks
    with Cons.prems have "callbacks_follow d outcome (pre @ Invokes_callback r # post)"
      by simp
    from Cons.IH [OF this] show ?thesis by auto
  next
    case Starts_job
    with Cons.prems have "callbacks_follow d outcome (pre @ Invokes_callback r # post)"
      by simp
    from Cons.IH [OF this] show ?thesis by auto
  next
    case Returns
    with Cons.prems have "callbacks_follow d outcome (pre @ Invokes_callback r # post)"
      by simp
    from Cons.IH [OF this] show ?thesis by auto
  qed
qed

lemma check_trace_follows:
  "callbacks_follow False outcome (check_trace mode early outcome sched)"
  unfolding check_trace_def
  by (rule callbacks_follow_interleave)
     (cases mode; cases early; simp add: check_calling_thread_def check_job_def)+

lemma interleave_append:
  "interleave (xs @ ys) started cs js =
     interleave xs started cs js @
     (case remaining xs started cs js of (st, cs', js') \<Rightarrow> interleave ys st cs' js')"
  by (induction xs started cs js rule: interleave.induct) auto

lemma remaining_append:
  "remaining (xs @ ys) started cs js =
     (case remaining xs started cs js of (st, cs', js') \<Rightarrow> remaining ys st cs' js')"
  by (induction xs started cs js rule: remaining.induct) auto

lemma interleave_conserves:
  "remaining xs started cs js = (st, cs', js') \<Longrightarrow>
   length (filter P (interleave xs started cs js)) + length (filter P cs') + length (filter P js') =
     length (filter P cs) + length (filter P js)"
  by (induction xs started cs js rule: interleave.induct) (auto split: if_splits)

lemma remaining_caller:
  "remaining xs started cs js = (st, cs', js') \<Longrightarrow>
   length cs' \<le> length cs - count_list xs Caller \<and> length js' \<le> length js \<and>
   (started \<longrightarrow> st) \<and> (cs' = [] \<longrightarrow> Starts_job \<in> set cs \<longrightarrow> st)"
  by (induction xs started cs js rule: remaining.induct) (auto split: if_splits)

lemma remaining_job:
  "remaining xs True [] js = (st, cs', js') \<Longrightarrow>
   st \<and> cs' = [] \<and> length js' \<le> length js - count_list xs Job"
  by (induction xs "True" "[] :: 'a check_event list" js rule: remaining.induct)
     (auto split: if_splits)

lemma remaining_done:
  "remaining xs started [] [] = (started, [], [])"
  by (induction xs) (auto, metis remaining.simps thread.exhaust)

lemma remaining_all:
  assumes s1: "4 \<le> count_list sched1 Caller"
    and s2: "mode = Blocking \<or> 2 \<le> count_list sched2 Job"
  shows "\<exists>st. remaining (sched1 @ sched2 @ sched3) False
           (check_calling_thread mode early outcome) (check_job mode early outcome) = (st, [], [])"
proof -
  let ?cs = "check_calling_thread mode early outcome"
  let ?js = "check_job mode early outcome"
  obtain st1 cs1 js1 where r1: "remaining sched1 False ?cs ?js = (st1, cs1, js1)"
    by (metis prod_cases3)
  have lc: "length ?cs \<le> 4" and lj: "length ?js \<le> 2"
    by (cases mode; cases early; simp add: check_calling_thread_def check_job_def)+
  from remaining_caller [OF r1] lc s1 have c1: "cs1 = []" by simp
  from remaining_caller [OF r1] lj have j1: "length js1 \<le> 2" by simp
  show ?thesis
  proof (cases "mode = Blocking")
    case True
    then have "?js = []" by (simp add: check_job_def)
    with remaining_caller [OF r1] have "js1 = []" by simp
    then show ?thesis using r1 c1
      by (simp add: remaining_append remaining_done del: append_assoc)
  next
    case False
    then have "Starts_job \<in> set ?cs"
      by (cases mode; cases early; simp add: check_calling_thread_def)
    with remaining_caller [OF r1] c1 have st1: "st1" by simp
    obtain st2 cs2 js2 where r2: "remaining sched2 True [] js1 = (st2, cs2, js2)"
      by (metis prod_cases3)
    from False s2 have "2 \<le> count_list sched2 Job" by simp
    with remaining_job [OF r2] j1 have "st2" "cs2 = []" "js2 = []" by simp_all
    then show ?thesis using r1 r2 c1 st1
      by (auto simp: remaining_append remaining_done)
  qed
qed

lemma check_trace_completes:
  assumes s1: "4 \<le> count_list sched1 Caller"
    and s2: "mode = Blocking \<or> 2 \<le> count_list sched2 Job"
  shows "length (filter P (check_trace mode early outcome (sched1 @ sched2 @ sched3))) =
    length (filter P (check_calling_thread mode early outcome)) +
    length (filter P (check_job mode early outcome))"
proof -
  from remaining_all [OF s1 s2, of sched3 early outcome] obtain st where
    "remaining (sched1 @ sched2 @ sched3) False
       (check_calling_thread mode early outcome) (check_job mode early outcome) = (st, [], [])"
    by blast
  from interleave_conserves [OF this, of P] show ?thesis by (simp add: check_trace_def)
qed

text \<open>
  Claim C6. In each of the three behaviours allowed for \<^verbatim>\<open>check\<close> and under every
  schedule, the callback is invoked at most once at any moment, and every invocation
  passes the outcome of the check and comes strictly after the event that determined it.
  Under every schedule that gives the calling thread four steps and then, unless the
  check runs inline, the job two steps, both threads reach their end and the callback has
  been invoked exactly once, however long the schedule goes on afterwards.
\<close>
theorem callback_invoked_once_after_outcome:
  "length (filter is_callback (check_trace mode early outcome sched)) \<le> 1 \<and>
   (\<forall>pre r post. check_trace mode early outcome sched = pre @ Invokes_callback r # post \<longrightarrow>
      r = outcome \<and> Determines outcome \<in> set pre) \<and>
   (length (check_trace mode early outcome sched) =
      length (check_calling_thread mode early outcome) + length (check_job mode early outcome) \<longrightarrow>
    length (filter is_callback (check_trace mode early outcome sched)) = 1) \<and>
   (4 \<le> count_list sched1 Caller \<and> (mode = Blocking \<or> 2 \<le> count_list sched2 Job) \<longrightarrow>
    length (filter is_callback (check_trace mode early outcome (sched1 @ sched2 @ sched3))) = 1 \<and>
    length (check_trace mode early outcome (sched1 @ sched2 @ sched3)) =
      length (check_calling_thread mode early outcome) + length (check_job mode early outcome))"
proof -
  have n: "length (filter is_callback (check_calling_thread mode early outcome)) +
           length (filter is_callback (check_job mode early outcome)) = 1"
    by (cases mode; cases early; simp add: check_calling_thread_def check_job_def)
  have le: "length (filter is_callback (check_trace mode early outcome sched)) \<le> 1"
    using interleave_count_le [of is_callback sched False
        "check_calling_thread mode early outcome" "check_job mode early outcome"] n
    by (simp add: check_trace_def)
  have ord: "r = outcome \<and> Determines outcome \<in> set pre"
    if "check_trace mode early outcome sched = pre @ Invokes_callback r # post" for pre r post
    using callbacks_follow_split [of False outcome pre r post] check_trace_follows [of outcome mode early sched]
    unfolding that by simp
  have ex: "length (filter is_callback (check_trace mode early outcome sched)) = 1"
    if "length (check_trace mode early outcome sched) =
      length (check_calling_thread mode early outcome) + length (check_job mode early outcome)"
    using interleave_complete [of sched False "check_calling_thread mode early outcome"
        "check_job mode early outcome" is_callback] that n
    by (simp add: check_trace_def)
  have fin: "length (filter is_callback (check_trace mode early outcome (sched1 @ sched2 @ sched3))) = 1 \<and>
    length (check_trace mode early outcome (sched1 @ sched2 @ sched3)) =
      length (check_calling_thread mode early outcome) + length (check_job mode early outcome)"
    if s1: "4 \<le> count_list sched1 Caller" and s2: "mode = Blocking \<or> 2 \<le> count_list sched2 Job"
    using check_trace_completes [OF s1 s2, of is_callback early outcome sched3]
      check_trace_completes [OF s1 s2, of "\<lambda>e. True" early outcome sched3] n
    by simp
  show ?thesis using le ord ex fin by blast
qed

theorem callback_invoked_once_after_outcome_witness:
  "length (filter is_callback (check_trace Blocking False (1::nat)
      ([Caller, Job, Caller, Caller, Caller] @ [] @ [Job]))) = 1 \<and>
   length (filter is_callback (check_trace Asynchronous False (1::nat)
      ([Job, Caller, Caller, Caller, Caller] @ [Job, Caller, Job] @ [Caller]))) = 1 \<and>
   length (filter is_callback (check_trace Blocking_then_asynchronous True (1::nat)
      ([Caller, Job, Caller, Caller, Caller] @ [Job, Job] @ []))) = 1 \<and>
   length (filter is_callback (check_trace Blocking_then_asynchronous False (1::nat)
      ([Caller, Job, Caller, Caller, Caller] @ [Job, Job] @ []))) = 1 \<and>
   check_trace Asynchronous False (1::nat) [Job, Caller, Job, Caller, Job] =
     [Starts_job, Determines 1, Returns] @ Invokes_callback 1 # [] \<and>
   Determines (1::nat) \<in> set [Starts_job, Determines 1, Returns] \<and>
   length (check_trace Asynchronous False (1::nat) [Job, Caller, Job, Caller, Job]) =
     length (check_calling_thread Asynchronous False (1::nat)) +
     length (check_job Asynchronous False (1::nat)) \<and>
   length (filter is_callback
     (check_trace Asynchronous False (1::nat) [Job, Caller, Job, Caller, Job])) = 1"
proof -
  have hb: "4 \<le> count_list [Caller, Job, Caller, Caller, Caller] Caller \<and>
      (Blocking = Blocking \<or> 2 \<le> count_list [] Job)"
    by simp
  have ha: "4 \<le> count_list [Job, Caller, Caller, Caller, Caller] Caller \<and>
      (Asynchronous = Blocking \<or> 2 \<le> count_list [Job, Caller, Job] Job)"
    by simp
  have hy: "4 \<le> count_list [Caller, Job, Caller, Caller, Caller] Caller \<and>
      (Blocking_then_asynchronous = Blocking \<or> 2 \<le> count_list [Job, Job] Job)"
    by simp
  note b = callback_invoked_once_after_outcome
    [of Blocking False "1::nat" _ "[Caller, Job, Caller, Caller, Caller]" "[]" "[Job]",
      THEN conjunct2, THEN conjunct2, THEN conjunct2, rule_format, OF hb, THEN conjunct1]
  note a = callback_invoked_once_after_outcome
    [of Asynchronous False "1::nat" _ "[Job, Caller, Caller, Caller, Caller]"
      "[Job, Caller, Job]" "[Caller]",
      THEN conjunct2, THEN conjunct2, THEN conjunct2, rule_format, OF ha, THEN conjunct1]
  note y1 = callback_invoked_once_after_outcome
    [of Blocking_then_asynchronous True "1::nat" _ "[Caller, Job, Caller, Caller, Caller]"
      "[Job, Job]" "[]",
      THEN conjunct2, THEN conjunct2, THEN conjunct2, rule_format, OF hy, THEN conjunct1]
  note y2 = callback_invoked_once_after_outcome
    [of Blocking_then_asynchronous False "1::nat" _ "[Caller, Job, Caller, Caller, Caller]"
      "[Job, Job]" "[]",
      THEN conjunct2, THEN conjunct2, THEN conjunct2, rule_format, OF hy, THEN conjunct1]
  have t: "check_trace Asynchronous False (1::nat) [Job, Caller, Job, Caller, Job] =
     [Starts_job, Determines 1, Returns] @ Invokes_callback 1 # []"
    by (simp add: check_trace_def check_calling_thread_def check_job_def)
  have l: "length (check_trace Asynchronous False (1::nat) [Job, Caller, Job, Caller, Job]) =
     length (check_calling_thread Asynchronous False (1::nat)) +
     length (check_job Asynchronous False (1::nat))"
    by (simp add: check_trace_def check_calling_thread_def check_job_def)
  note inst = callback_invoked_once_after_outcome
    [of Asynchronous False "1::nat" "[Job, Caller, Job, Caller, Job]"]
  from inst [THEN conjunct2, THEN conjunct1, rule_format, OF t]
  have d: "Determines (1::nat) \<in> set [Starts_job, Determines 1, Returns]" by simp
  from inst [THEN conjunct2, THEN conjunct2, THEN conjunct1, rule_format, OF l]
  have c: "length (filter is_callback
      (check_trace Asynchronous False (1::nat) [Job, Caller, Job, Caller, Job])) = 1" .
  from b a y1 y2 t d l c show ?thesis by blast
qed

end
